theory Spec2Isabelle
  imports Main "HOL-Library.Word"
begin

section \<open>A streaming bulk loader: delimited records to MySQL/TiDB insertions\<close>

text \<open>
  The repository holds two variants of one Go program. \<open>src/tsvToMYSQLTiDB.go\<close> keeps its
  counters in plain \<open>int\<close> variables; \<open>src/unnamed/part_000\<close> keeps them in \<open>int64\<close>
  variables updated with \<open>sync/atomic\<close>, numbers rows from zero and adds the
  \<open>enable_update\<close> option.  The embedding carries the variant as a parameter wherever the
  two texts differ.
\<close>

datatype variant = Plain | Atomic

subsection \<open>Command line: \<open>parseSysArgs\<close>\<close>

text \<open>
  A rune is Go's \<open>int32\<close>.  The value of a string flag is taken as the rune sequence that
  \<open>[]rune(s)\<close> yields; a flag that was not passed is \<open>None\<close> and the package-level default
  applies.  Indexing an empty slice panics.
\<close>

type_synonym rune = "32 word"

record flags =
  flag_db :: "string option"
  flag_table :: "string option"
  flag_d :: "rune list option"
  flag_conns :: "int option"
  flag_enable_update :: "bool option"

record config =
  TABLENAME :: string
  DELIMITER :: rune
  MAX_SQL_CONNECTIONS :: int
  CONN_STR :: string
  ON_DUP_KEYS_UPDATE :: bool

datatype panic = Index_out_of_range | Makechan_size_out_of_range

definition default_max_conns :: "variant \<Rightarrow> int" where
  "default_max_conns v = (case v of Plain \<Rightarrow> 50 | Atomic \<Rightarrow> 100)"

definition flag_value :: "'a option \<Rightarrow> 'a \<Rightarrow> 'a" where
  "flag_value given dflt = (case given of None \<Rightarrow> dflt | Some x \<Rightarrow> x)"

definition parseSysArgs :: "variant \<Rightarrow> flags \<Rightarrow> panic + config" where
  "parseSysArgs v fl =
     (let db = flag_value (flag_db fl) '''';
          table = flag_value (flag_table fl) '''';
          delimiter = flag_value (flag_d fl) [9];
          max_conns = flag_value (flag_conns fl) (default_max_conns v);
          on_dup_keys_update =
            (case v of Plain \<Rightarrow> False | Atomic \<Rightarrow> flag_value (flag_enable_update fl) False)
      in case delimiter of
           [] \<Rightarrow> Inl Index_out_of_range
         | r # _ \<Rightarrow>
             Inr \<lparr>TABLENAME = table, DELIMITER = r, MAX_SQL_CONNECTIONS = max_conns,
                  CONN_STR = db, ON_DUP_KEYS_UPDATE = on_dup_keys_update\<rparr>)"

subsection \<open>Statement text: \<open>parseColumns\<close>\<close>

text \<open>
  The loop \<open>for i, c := range columns\<close> runs over the indexed columns and appends to the
  strings it builds.  The first function is the text of \<open>src/tsvToMYSQLTiDB.go\<close>, the second
  that of \<open>src/unnamed/part_000\<close>, which also builds the update clause and appends it when
  \<open>ON_DUP_KEYS_UPDATE\<close> is set.
\<close>

definition plain_column :: "nat \<times> string \<Rightarrow> string \<times> string \<Rightarrow> string \<times> string" where
  "plain_column = (\<lambda>(i, c) (query, placeholder).
     if i = 0 then (query @ c, placeholder @ ''?'')
     else (query @ '', '' @ c, placeholder @ '', ?''))"

definition parseColumns_plain :: "string \<Rightarrow> string list \<Rightarrow> string" where
  "parseColumns_plain table columns =
     (let (query, placeholder) =
            fold plain_column (enumerate 0 columns)
              (''INSERT INTO '' @ table @ '' ('', ''VALUES ('');
          placeholder = placeholder @ '')''
      in query @ '') '' @ placeholder)"

definition atomic_column ::
  "nat \<times> string \<Rightarrow> string \<times> string \<times> string \<Rightarrow> string \<times> string \<times> string" where
  "atomic_column = (\<lambda>(i, c) (query, placeholder, update).
     if i = 0 then (query @ c, placeholder @ ''?'', update @ (c @ ''=VALUES('' @ c @ '')''))
     else (query @ '', '' @ c, placeholder @ '', ?'',
           update @ ('', '' @ c @ ''=VALUES('' @ c @ '')'')))"

definition parseColumns_atomic :: "string \<Rightarrow> bool \<Rightarrow> string list \<Rightarrow> string" where
  "parseColumns_atomic table on_dup columns =
     (let (query, placeholder, update) =
            fold atomic_column (enumerate 0 columns)
              (''INSERT INTO '' @ table @ '' ('', ''VALUES ('', ''ON DUPLICATE KEY UPDATE '');
          placeholder = placeholder @ '')'';
          query = query @ '') '' @ placeholder
      in if on_dup then query @ update else query)"

definition parseColumns :: "variant \<Rightarrow> config \<Rightarrow> string list \<Rightarrow> string" where
  "parseColumns v cfg columns =
     (case v of
        Plain \<Rightarrow> parseColumns_plain (TABLENAME cfg) columns
      | Atomic \<Rightarrow> parseColumns_atomic (TABLENAME cfg) (ON_DUP_KEYS_UPDATE cfg) columns)"

text \<open>
  What the specification asks of the statement, written independently of the loop: the
  column names and the placeholders are separated by a comma and a blank, and the update
  clause assigns to every column the value of the row being inserted.
\<close>

fun join_with :: "string \<Rightarrow> string list \<Rightarrow> string" where
  "join_with sep [] = []"
| "join_with sep [x] = x"
| "join_with sep (x # y # ys) = x @ sep @ join_with sep (y # ys)"

definition insert_statement :: "string \<Rightarrow> string list \<Rightarrow> string" where
  "insert_statement table columns =
     ''INSERT INTO '' @ table @ '' ('' @ join_with '', '' columns @ '') VALUES (''
       @ join_with '', '' (replicate (length columns) ''?'') @ '')''"

definition update_clause :: "string list \<Rightarrow> string" where
  "update_clause columns =
     ''ON DUPLICATE KEY UPDATE ''
       @ join_with '', '' (map (\<lambda>c. c @ ''=VALUES('' @ c @ '')'') columns)"

subsection \<open>Argument list: \<open>repalceNULLByDEFAULT\<close>\<close>

text \<open>
  An argument is an \<open>interface{}\<close> holding either \<open>nil\<close> or the field's string.  The
  slice is made with the length of the record, every slot \<open>nil\<close>, and the loop stores into
  slot \<open>k\<close>, which is always in range.
\<close>

datatype arg = Null | Text string

definition null_or_text :: "string \<Rightarrow> arg" where
  "null_or_text v = (if v = ''NULL'' then Null else Text v)"

definition repalceNULLByDEFAULT :: "string list \<Rightarrow> arg list" where
  "repalceNULLByDEFAULT s =
     fold (\<lambda>(k, v) i. i[k := null_or_text v]) (enumerate 0 s) (replicate (length s) Null)"

section \<open>The pipeline of \<open>main\<close>\<close>

text \<open>
  \<open>main\<close> runs one producer (the read loop), one goroutine per data record (\<open>insert\<close>) and
  the collector goroutine of \<open>startConnectionController\<close>.  They are modelled as an
  interleaving of atomic steps over one shared state: a scheduler picks which goroutine
  moves next, and a goroutine that is blocked (a receive from an empty channel, a send to a
  full one, \<open>wg.Wait()\<close>) has no step.  The logger goroutine of \<open>startLogger\<close> only reads the
  counters and is left out.  Elapsed time and the rates derived from it are not modelled.
  Go's \<open>int\<close> and \<open>int64\<close> are modelled as unbounded integers: a counter or a row number
  wraps only after \<open>2^63\<close> records (\<open>2^31\<close> where \<open>int\<close> has 32 bits).

  \<^item> The black boxes are parameters.  \<open>reader.Read()\<close> yields the next element of a list of
    results, a record or an error, and \<open>io.EOF\<close> at its end.  The store answers
    \<open>db.Prepare\<close> and \<open>stmt.Exec\<close> with an optional error, chosen with the step.
  \<^item> \<open>available\<close> holds only the value \<open>true\<close>, so the channel is the number of tokens in
    it; its capacity is \<open>MAX_SQL_CONNECTIONS\<close>.  \<open>callback\<close> is a queue of capacity 1024.
  \<^item> A plain \<open>connections += 1\<close> or \<open>*connections -= 1\<close> on the variable shared between
    \<open>main\<close> and the collector is a load followed by a store, two steps; the
    \<open>atomic.AddInt64\<close> of the other variant is one step.  \<open>insertions\<close> and \<open>fails\<close> are
    written by the collector alone, so their updates are single steps in both variants.
  \<^item> \<open>log.Fatal\<close> ends the process with exit code 1 and the final report ends it with
    exit code 0: once the status is not \<open>Running\<close> no goroutine has a step.
\<close>

datatype read_result = Record "string list" | Read_error string

datatype status = Running | Fatal string | Panicked panic | Reported int int

datatype log_line = Insert_error int "int option" string

datatype main_pc =
    M_read
  | M_acquire "string list"
  | M_conn_load "string list"
  | M_conn_store "string list" int
  | M_spawn "string list"
  | M_wait
  | M_drain
  | M_report

datatype collector_pc = C_inc | C_recv | C_test int | C_conn_load | C_conn_store int | C_release

datatype worker_pc = W_add | W_prepare | W_exec | W_sub | W_send int | W_defer | W_exited

record worker =
  w_id :: int
  w_query :: string
  w_args :: "arg list"
  w_err :: "string option"
  w_pc :: worker_pc

text \<open>
  The last three fields are history variables: they record how many tokens were taken from
  and returned to \<open>available\<close> and which values the collector received.  No step reads them.
\<close>

record state =
  status :: status
  input :: "read_result list"
  main_at :: main_pc
  isFirstRow :: bool
  query :: string
  id_var :: int
  available :: nat
  callback :: "int list"
  connections :: int
  insertions :: int
  fails :: int
  wg :: int
  workers :: "worker list"
  collector_at :: collector_pc
  logged :: "log_line list"
  acquired :: nat
  released :: nat
  received :: "int list"

record environment =
  open_error :: "string option"
  ping_error :: "string option"
  makechan_limit :: int
  stdin :: "read_result list"

definition exit_code :: "status \<Rightarrow> int option" where
  "exit_code st =
     (case st of Running \<Rightarrow> None | Fatal e \<Rightarrow> Some 1 | Panicked p \<Rightarrow> Some 2
      | Reported a b \<Rightarrow> Some 0)"

definition first_id :: "variant \<Rightarrow> int" where
  "first_id v = (case v of Plain \<Rightarrow> 1 | Atomic \<Rightarrow> - 1)"

definition initial :: "variant \<Rightarrow> config \<Rightarrow> read_result list \<Rightarrow> state" where
  "initial v cfg inp =
     \<lparr>status = Running, input = inp, main_at = M_read, isFirstRow = True, query = '''',
      id_var = first_id v, available = nat (MAX_SQL_CONNECTIONS cfg), callback = [],
      connections = 0, insertions = 0, fails = 0, wg = 0, workers = [],
      collector_at = C_inc, logged = [], acquired = 0, released = 0, received = []\<rparr>"

text \<open>
  The state of a process that ended before the read loop: nothing has been read and no
  channel holds a token.
\<close>

definition halted :: "variant \<Rightarrow> config \<Rightarrow> status \<Rightarrow> read_result list \<Rightarrow> state" where
  "halted v cfg st inp = (initial v cfg inp)\<lparr>status := st, available := 0\<rparr>"

text \<open>
  \<open>main\<close> up to the read loop: \<open>sql.Open\<close> and \<open>db.Ping\<close> are fatal when they fail, and
  \<open>make(chan bool, MAX_SQL_CONNECTIONS)\<close> panics with \<open>makechan: size out of range\<close> on a
  negative size and on a size above the largest buffer the runtime allocates, which
  depends on the platform and is a parameter of the environment.
\<close>

definition start :: "variant \<Rightarrow> config \<Rightarrow> environment \<Rightarrow> state" where
  "start v cfg env =
     (case open_error env of
        Some e \<Rightarrow> halted v cfg (Fatal e) (stdin env)
      | None \<Rightarrow>
          (case ping_error env of
             Some e \<Rightarrow> halted v cfg (Fatal e) (stdin env)
           | None \<Rightarrow>
               if MAX_SQL_CONNECTIONS cfg < 0 \<or> makechan_limit env < MAX_SQL_CONNECTIONS cfg
               then halted v cfg (Panicked Makechan_size_out_of_range) (stdin env)
               else initial v cfg (stdin env)))"

text \<open>
  The whole program: \<open>parseSysArgs\<close> first, and \<open>main\<close> only if it returns.
\<close>

definition default_config :: config where
  "default_config =
     \<lparr>TABLENAME = '''', DELIMITER = 9, MAX_SQL_CONNECTIONS = 0, CONN_STR = '''',
      ON_DUP_KEYS_UPDATE = False\<rparr>"

definition program :: "variant \<Rightarrow> flags \<Rightarrow> environment \<Rightarrow> state" where
  "program v fl env =
     (case parseSysArgs v fl of
        Inl p \<Rightarrow> halted v default_config (Panicked p) (stdin env)
      | Inr cfg \<Rightarrow> start v cfg env)"

subsection \<open>The producer: the read loop and the drain of \<open>main\<close>\<close>

text \<open>
  One step of \<open>main\<close> is one read with the branch it takes, the receive from
  \<open>available\<close>, the load or the store of \<open>connections += 1\<close>, the dispatch (the new row
  number, \<open>wg.Add(1)\<close>, the argument list and the \<open>go\<close> statement), the return of
  \<open>wg.Wait()\<close>, one test of the busy wait on \<open>len(callback)\<close>, or the report.  A read that
  fails ends the process; what is left of the stream stays where it is.
\<close>

definition new_worker :: "variant \<Rightarrow> int \<Rightarrow> string \<Rightarrow> string list \<Rightarrow> worker" where
  "new_worker v i q rec =
     \<lparr>w_id = i, w_query = q, w_args = repalceNULLByDEFAULT rec, w_err = None,
      w_pc = (case v of Plain \<Rightarrow> W_prepare | Atomic \<Rightarrow> W_add)\<rparr>"

definition main_step :: "variant \<Rightarrow> config \<Rightarrow> state \<Rightarrow> state option" where
  "main_step v cfg s =
     (case main_at s of
        M_read \<Rightarrow>
          (case input s of
             [] \<Rightarrow> Some (s\<lparr>main_at := M_wait\<rparr>)
           | Read_error e # rest \<Rightarrow> Some (s\<lparr>status := Fatal e\<rparr>)
           | Record rec # rest \<Rightarrow>
               if isFirstRow s
               then Some (s\<lparr>input := rest, query := parseColumns v cfg rec,
                            isFirstRow := False\<rparr>)
               else Some (s\<lparr>input := rest, main_at := M_acquire rec\<rparr>))
      | M_acquire rec \<Rightarrow>
          if available s = 0 then None
          else Some (s\<lparr>available := available s - 1, acquired := Suc (acquired s),
                       main_at := (case v of Plain \<Rightarrow> M_conn_load rec
                                   | Atomic \<Rightarrow> M_spawn rec)\<rparr>)
      | M_conn_load rec \<Rightarrow> Some (s\<lparr>main_at := M_conn_store rec (connections s)\<rparr>)
      | M_conn_store rec c \<Rightarrow> Some (s\<lparr>connections := c + 1, main_at := M_spawn rec\<rparr>)
      | M_spawn rec \<Rightarrow>
          Some (s\<lparr>id_var := id_var s + 1, wg := wg s + 1,
                  workers := workers s @ [new_worker v (id_var s + 1) (query s) rec],
                  main_at := M_read\<rparr>)
      | M_wait \<Rightarrow> if wg s = 0 then Some (s\<lparr>main_at := M_drain\<rparr>) else None
      | M_drain \<Rightarrow> if callback s = [] then Some (s\<lparr>main_at := M_report\<rparr>) else Some s
      | M_report \<Rightarrow>
          Some (s\<lparr>status := Reported (insertions s) (insertions s - fails s)\<rparr>))"

subsection \<open>The collector: \<open>startConnectionController\<close>\<close>

text \<open>
  The body of the collector's endless loop, statement by statement: the increment of
  \<open>insertions\<close>, the receive from \<open>callback\<close>, the test of the sign with the increment of
  \<open>fails\<close>, in \<open>src/tsvToMYSQLTiDB.go\<close> the decrement of \<open>connections\<close>, and the send on
  \<open>available\<close>.
\<close>

definition collector_step :: "variant \<Rightarrow> config \<Rightarrow> state \<Rightarrow> state option" where
  "collector_step v cfg s =
     (case collector_at s of
        C_inc \<Rightarrow> Some (s\<lparr>insertions := insertions s + 1, collector_at := C_recv\<rparr>)
      | C_recv \<Rightarrow>
          (case callback s of
             [] \<Rightarrow> None
           | x # rest \<Rightarrow>
               Some (s\<lparr>callback := rest, received := received s @ [x],
                       collector_at := C_test x\<rparr>))
      | C_test x \<Rightarrow>
          Some (s\<lparr>fails := (if x < 0 then fails s + 1 else fails s),
                  collector_at := (case v of Plain \<Rightarrow> C_conn_load | Atomic \<Rightarrow> C_release)\<rparr>)
      | C_conn_load \<Rightarrow> Some (s\<lparr>collector_at := C_conn_store (connections s)\<rparr>)
      | C_conn_store c \<Rightarrow> Some (s\<lparr>connections := c - 1, collector_at := C_release\<rparr>)
      | C_release \<Rightarrow>
          if available s < nat (MAX_SQL_CONNECTIONS cfg)
          then Some (s\<lparr>available := Suc (available s), released := Suc (released s),
                       collector_at := C_inc\<rparr>)
          else None)"

subsection \<open>A worker: \<open>insert\<close>\<close>

text \<open>
  A worker of \<open>src/unnamed/part_000\<close> first adds one to \<open>connections\<close>; a worker of
  \<open>src/tsvToMYSQLTiDB.go\<close> starts at the next statement.  It prepares the statement (fatal
  on error), executes it, on error logs it and negates the row number, in
  \<open>src/unnamed/part_000\<close> subtracts one from \<open>connections\<close>, sends the row number on
  \<open>callback\<close> and runs its deferred calls, \<open>stmt.Close()\<close> and \<open>wg.Done()\<close>.  The reply
  that comes with a step is the store's answer; steps that do not call the store ignore it.
\<close>

definition set_worker :: "nat \<Rightarrow> worker \<Rightarrow> state \<Rightarrow> state" where
  "set_worker i w s = s\<lparr>workers := (workers s)[i := w]\<rparr>"

definition worker_step :: "variant \<Rightarrow> nat \<Rightarrow> string option \<Rightarrow> state \<Rightarrow> state option" where
  "worker_step v i reply s =
     (if i < length (workers s) then
        let w = workers s ! i in
        (case w_pc w of
           W_add \<Rightarrow>
             Some (set_worker i (w\<lparr>w_pc := W_prepare\<rparr>)
                    (s\<lparr>connections := connections s + 1\<rparr>))
         | W_prepare \<Rightarrow>
             (case reply of
                Some e \<Rightarrow> Some (s\<lparr>status := Fatal e\<rparr>)
              | None \<Rightarrow> Some (set_worker i (w\<lparr>w_pc := W_exec\<rparr>) s))
         | W_exec \<Rightarrow>
             (case reply of
                Some e \<Rightarrow>
                  (case v of
                     Plain \<Rightarrow>
                       Some (set_worker i (w\<lparr>w_err := Some e, w_pc := W_send (- w_id w)\<rparr>)
                              (s\<lparr>logged := logged s
                                   @ [Insert_error (w_id w) (Some (connections s)) e]\<rparr>))
                   | Atomic \<Rightarrow>
                       Some (set_worker i (w\<lparr>w_id := - w_id w, w_err := Some e, w_pc := W_sub\<rparr>)
                              (s\<lparr>logged := logged s @ [Insert_error (w_id w) None e]\<rparr>)))
              | None \<Rightarrow>
                  Some (set_worker i
                         (w\<lparr>w_pc := (case v of Plain \<Rightarrow> W_send (w_id w) | Atomic \<Rightarrow> W_sub)\<rparr>)
                         s))
         | W_sub \<Rightarrow>
             Some (set_worker i (w\<lparr>w_pc := W_send (w_id w)\<rparr>)
                    (s\<lparr>connections := connections s - 1\<rparr>))
         | W_send x \<Rightarrow>
             if length (callback s) < 1024
             then Some (set_worker i (w\<lparr>w_pc := W_defer\<rparr>) (s\<lparr>callback := callback s @ [x]\<rparr>))
             else None
         | W_defer \<Rightarrow> Some (set_worker i (w\<lparr>w_pc := W_exited\<rparr>) (s\<lparr>wg := wg s - 1\<rparr>))
         | W_exited \<Rightarrow> None)
      else None)"

subsection \<open>Interleaving\<close>

datatype action = Main | Collector | Worker nat "string option"

definition step :: "variant \<Rightarrow> config \<Rightarrow> action \<Rightarrow> state \<Rightarrow> state option" where
  "step v cfg a s =
     (if status s = Running then
        (case a of
           Main \<Rightarrow> main_step v cfg s
         | Collector \<Rightarrow> collector_step v cfg s
         | Worker i reply \<Rightarrow> worker_step v i reply s)
      else None)"

fun run :: "variant \<Rightarrow> config \<Rightarrow> state \<Rightarrow> action list \<Rightarrow> state option" where
  "run v cfg s [] = Some s"
| "run v cfg s (a # as) =
     (case step v cfg a s of None \<Rightarrow> None | Some s' \<Rightarrow> run v cfg s' as)"

subsection \<open>Quantities the properties speak of\<close>

text \<open>
  A Task is in flight from the moment its token is taken from \<open>available\<close> until the
  collector puts the token back.  The number of Tasks dispatched is the number of workers
  started, and the number of data records of a stream is its length without the header.
\<close>

definition in_flight :: "state \<Rightarrow> int" where
  "in_flight s = int (acquired s) - int (released s)"

definition dispatched :: "state \<Rightarrow> int" where
  "dispatched s = int (length (workers s))"

definition data_records :: "read_result list \<Rightarrow> int" where
  "data_records inp = int (length inp - 1)"

definition is_error :: "read_result \<Rightarrow> bool" where
  "is_error r = (case r of Record rec \<Rightarrow> False | Read_error e \<Rightarrow> True)"

definition malformed :: "read_result list \<Rightarrow> bool" where
  "malformed inp = list_ex is_error inp"

definition tally :: "(worker \<Rightarrow> bool) \<Rightarrow> worker list \<Rightarrow> int" where
  "tally P ws = int (length (filter P ws))"

definition unsent :: "worker \<Rightarrow> bool" where
  "unsent w = (case w_pc w of W_defer \<Rightarrow> False | W_exited \<Rightarrow> False | _ \<Rightarrow> True)"

definition alive :: "worker \<Rightarrow> bool" where
  "alive w = (case w_pc w of W_exited \<Rightarrow> False | _ \<Rightarrow> True)"

definition busy :: "worker \<Rightarrow> bool" where
  "busy w =
     (case w_pc w of W_prepare \<Rightarrow> True | W_exec \<Rightarrow> True | W_sub \<Rightarrow> True
      | _ \<Rightarrow> False)"

definition main_holds :: "state \<Rightarrow> int" where
  "main_holds s =
     (case main_at s of M_conn_load rec \<Rightarrow> 1 | M_conn_store rec c \<Rightarrow> 1 | M_spawn rec \<Rightarrow> 1
      | _ \<Rightarrow> 0)"

definition main_pending :: "state \<Rightarrow> int" where
  "main_pending s =
     (case main_at s of M_acquire rec \<Rightarrow> 1 | M_conn_load rec \<Rightarrow> 1
      | M_conn_store rec c \<Rightarrow> 1 | M_spawn rec \<Rightarrow> 1 | _ \<Rightarrow> 0)"

definition collector_holds :: "state \<Rightarrow> int" where
  "collector_holds s = (case collector_at s of C_inc \<Rightarrow> 0 | C_recv \<Rightarrow> 0 | _ \<Rightarrow> 1)"

definition quiescent :: "state \<Rightarrow> bool" where
  "quiescent s =
     (tally alive (workers s) = 0 \<and> callback s = [] \<and> collector_at s = C_recv
      \<and> main_holds s = 0)"

subsection \<open>Invariants of the pipeline\<close>

text \<open>
  Every token is in exactly one place: in \<open>available\<close>, with \<open>main\<close> between the receive
  and the \<open>go\<close> statement, with a worker that has not sent yet, in \<open>callback\<close> as an
  Outcome, or with the collector between its receive and its release.
\<close>

definition tokens_inv :: "config \<Rightarrow> state \<Rightarrow> bool" where
  "tokens_inv cfg s =
     (int (available s) + in_flight s = MAX_SQL_CONNECTIONS cfg
      \<and> in_flight s =
          main_holds s + tally unsent (workers s) + int (length (callback s))
            + collector_holds s)"

definition negatives :: "int list \<Rightarrow> int" where
  "negatives xs = int (length (filter (\<lambda>x. x < 0) xs))"

definition counts_inv :: "state \<Rightarrow> bool" where
  "counts_inv s =
     (wg s = tally alive (workers s)
      \<and> int (length (received s)) + int (length (callback s)) + tally unsent (workers s)
          = dispatched s
      \<and> insertions s
          = int (length (received s)) + (if collector_at s = C_recv then 1 else 0)
      \<and> fails s
          = negatives (received s)
            - (case collector_at s of C_test x \<Rightarrow> if x < 0 then 1 else 0 | _ \<Rightarrow> 0)
      \<and> int (released s) = int (length (received s)) - collector_holds s)"

definition input_inv :: "read_result list \<Rightarrow> state \<Rightarrow> bool" where
  "input_inv inp s =
     (dispatched s + main_pending s
        + (if isFirstRow s then data_records (input s) else int (length (input s)))
        = data_records inp
      \<and> (case main_at s of
            M_wait \<Rightarrow> input s = []
          | M_drain \<Rightarrow> input s = [] \<and> tally alive (workers s) = 0
          | M_report \<Rightarrow> input s = [] \<and> tally alive (workers s) = 0 \<and> callback s = []
          | _ \<Rightarrow> True)
      \<and> (case status s of
            Running \<Rightarrow> malformed inp = malformed (input s)
          | Reported a b \<Rightarrow>
              \<not> malformed inp \<and> main_at s = M_report \<and> a = insertions s
              \<and> b = insertions s - fails s
          | _ \<Rightarrow> True))"

definition variant_inv :: "variant \<Rightarrow> state \<Rightarrow> bool" where
  "variant_inv v s =
     (case v of
        Plain \<Rightarrow> True
      | Atomic \<Rightarrow>
          connections s = tally busy (workers s)
          \<and> (case main_at s of M_conn_load rec \<Rightarrow> False | M_conn_store rec c \<Rightarrow> False
              | _ \<Rightarrow> True)
          \<and> (case collector_at s of C_conn_load \<Rightarrow> False | C_conn_store c \<Rightarrow> False
              | _ \<Rightarrow> True))"

definition pipeline_inv :: "variant \<Rightarrow> config \<Rightarrow> read_result list \<Rightarrow> state \<Rightarrow> bool" where
  "pipeline_inv v cfg inp s =
     (tokens_inv cfg s \<and> counts_inv s \<and> input_inv inp s \<and> variant_inv v s)"

subsection \<open>Failures and the sign of the sequence number\<close>

text \<open>
  A worker is well numbered when its \<open>err\<close> is unset until \<open>stmt.Exec\<close> has answered, the
  value it is about to send carries the sign the source gives it, and it stands at a
  statement its variant of \<open>insert\<close> has.  A failure is
  recognisable when the sequence number of its Task is not zero.
\<close>

definition well_numbered :: "variant \<Rightarrow> worker \<Rightarrow> bool" where
  "well_numbered v w =
     (case v of
        Plain \<Rightarrow>
          0 < w_id w
          \<and> (case w_pc w of
                W_prepare \<Rightarrow> w_err w = None
              | W_add \<Rightarrow> False
              | W_exec \<Rightarrow> w_err w = None
              | W_sub \<Rightarrow> False
              | W_send x \<Rightarrow> x = (if w_err w = None then w_id w else - w_id w)
              | _ \<Rightarrow> True)
      | Atomic \<Rightarrow>
          (if w_err w = None then 0 \<le> w_id w else w_id w \<le> 0)
          \<and> (case w_pc w of
                W_prepare \<Rightarrow> w_err w = None
              | W_add \<Rightarrow> w_err w = None
              | W_exec \<Rightarrow> w_err w = None
              | W_send x \<Rightarrow> x = w_id w
              | _ \<Rightarrow> True))"

definition ill_numbered :: "variant \<Rightarrow> worker \<Rightarrow> bool" where
  "ill_numbered v w = (\<not> well_numbered v w)"

definition failed :: "worker \<Rightarrow> bool" where
  "failed w = (w_err w \<noteq> None)"

definition recognisable_failure :: "worker \<Rightarrow> bool" where
  "recognisable_failure w = (w_err w \<noteq> None \<and> w_id w \<noteq> 0)"

definition reported_failure :: "worker \<Rightarrow> bool" where
  "reported_failure w = (\<not> unsent w \<and> recognisable_failure w)"

definition numbered_from :: "int \<Rightarrow> worker list \<Rightarrow> bool" where
  "numbered_from n ws = (map (\<lambda>w. \<bar>w_id w\<bar>) ws = map (\<lambda>k. n + int k) [0..<length ws])"

definition failures_inv :: "variant \<Rightarrow> state \<Rightarrow> bool" where
  "failures_inv v s =
     (id_var s = first_id v + int (length (workers s))
      \<and> numbered_from (first_id v + 1) (workers s)
      \<and> tally (ill_numbered v) (workers s) = 0
      \<and> negatives (received s) + negatives (callback s)
          = tally reported_failure (workers s))"

subsection \<open>Work left to do\<close>

text \<open>
  A bound on the number of steps a state still has before the process ends: every record
  still to be read, every worker, every Outcome in \<open>callback\<close> and each goroutine's position
  count the statements ahead of them.
\<close>

definition main_weight :: "main_pc \<Rightarrow> nat" where
  "main_weight pc =
     (case pc of M_read \<Rightarrow> 4 | M_acquire rec \<Rightarrow> 23 | M_conn_load rec \<Rightarrow> 22
      | M_conn_store rec c \<Rightarrow> 21 | M_spawn rec \<Rightarrow> 20 | M_wait \<Rightarrow> 3 | M_drain \<Rightarrow> 2
      | M_report \<Rightarrow> 1)"

definition collector_weight :: "collector_pc \<Rightarrow> nat" where
  "collector_weight pc =
     (case pc of C_inc \<Rightarrow> 1 | C_recv \<Rightarrow> 0 | C_test x \<Rightarrow> 5 | C_conn_load \<Rightarrow> 4
      | C_conn_store c \<Rightarrow> 3 | C_release \<Rightarrow> 2)"

definition worker_weight :: "worker \<Rightarrow> nat" where
  "worker_weight w =
     (case w_pc w of W_add \<Rightarrow> 15 | W_prepare \<Rightarrow> 14 | W_exec \<Rightarrow> 13 | W_sub \<Rightarrow> 12
      | W_send x \<Rightarrow> 11 | W_defer \<Rightarrow> 1 | W_exited \<Rightarrow> 0)"

definition work_left :: "state \<Rightarrow> nat" where
  "work_left s =
     (if status s = Running then 1 else 0) + main_weight (main_at s) + 24 * length (input s)
       + sum_list (map worker_weight (workers s)) + 6 * length (callback s)
       + collector_weight (collector_at s)"

subsection \<open>Concrete inputs\<close>

text \<open>
  A configuration with a given number of connections, an environment in which the store
  opens and answers the ping and \<open>make\<close> accepts up to \<open>2^48 - 96\<close> one-byte elements (the
  limit on linux/amd64), and the streams the specification's scenarios use.
\<close>

definition example_config :: "int \<Rightarrow> config" where
  "example_config n =
     \<lparr>TABLENAME = ''t'', DELIMITER = 9, MAX_SQL_CONNECTIONS = n, CONN_STR = ''dsn'',
      ON_DUP_KEYS_UPDATE = False\<rparr>"

definition example_env :: "read_result list \<Rightarrow> environment" where
  "example_env inp =
     \<lparr>open_error = None, ping_error = None, makechan_limit = 281474976710560, stdin = inp\<rparr>"

definition header_only :: "read_result list" where
  "header_only = [Record [''id'', ''name'']]"

definition one_row :: "read_result list" where
  "one_row = [Record [''id'', ''name''], Record [''1'', ''Alice'']]"

definition three_rows :: "read_result list" where
  "three_rows =
     [Record [''id'', ''name''], Record [''1'', ''Alice''], Record [''2'', ''NULL''],
      Record [''3'', ''Carol'']]"

definition bad_third_row :: "read_result list" where
  "bad_third_row =
     [Record [''id'', ''name''], Record [''1'', ''Alice''], Record [''2'', ''NULL''],
      Read_error ''record on line 4: wrong number of fields'']"


definition until_third_row :: "action list" where
  "until_third_row =
     [Main, Main, Main, Main, Main, Main, Worker 0 None, Worker 0 None, Worker 0 None,
      Collector, Collector, Collector, Collector, Collector, Collector,
      Main, Main, Main, Main, Main]"




definition drained_header_only :: "action list" where
  "drained_header_only = [Collector, Main, Main, Main, Main, Main]"

definition drained_one_row :: "variant \<Rightarrow> string option \<Rightarrow> action list" where
  "drained_one_row v reply =
     (case v of
        Plain \<Rightarrow>
          [Main, Main, Main, Main, Main, Main,
           Worker 0 None, Worker 0 reply, Worker 0 None, Worker 0 None,
           Collector, Collector, Collector, Collector, Collector, Collector, Collector,
           Main, Main, Main, Main]
      | Atomic \<Rightarrow>
          [Main, Main, Main, Main,
           Worker 0 None, Worker 0 None, Worker 0 reply, Worker 0 None, Worker 0 None,
           Worker 0 None,
           Collector, Collector, Collector, Collector, Collector,
           Main, Main, Main, Main])"

definition lost_decrement :: "action list" where
  "lost_decrement =
     [Main, Main, Main, Main, Main, Main,
      Main, Main, Main,
      Worker 0 None, Worker 0 None, Worker 0 None,
      Collector, Collector, Collector, Collector, Collector,
      Main, Main,
      Collector,
      Main, Main, Main, Main]"



section \<open>Properties of the sequential parts\<close>

lemma join_with_Cons:
  "join_with sep (x # xs) = x @ concat (map (\<lambda>y. sep @ y) xs)"
  by (induction xs arbitrary: x) simp_all

lemma plain_column_first: "plain_column (0, c) (q, p) = (q @ c, p @ ''?'')"
  by (simp add: plain_column_def)

lemma atomic_column_first:
  "atomic_column (0, c) (q, p, u) = (q @ c, p @ ''?'', u @ (c @ ''=VALUES('' @ c @ '')''))"
  by (simp add: atomic_column_def)

lemma fold_plain_column_Suc:
  "fold plain_column (enumerate (Suc n) cs) (q, p) =
     (q @ concat (map (\<lambda>c. '', '' @ c) cs), p @ concat (replicate (length cs) '', ?''))"
  by (induction cs arbitrary: n q p) (simp_all add: plain_column_def)

lemma fold_atomic_column_Suc:
  "fold atomic_column (enumerate (Suc n) cs) (q, p, u) =
     (q @ concat (map (\<lambda>c. '', '' @ c) cs), p @ concat (replicate (length cs) '', ?''),
      u @ concat (map (\<lambda>c. '', '' @ (c @ ''=VALUES('' @ c @ '')'')) cs))"
  by (induction cs arbitrary: n q p u) (simp_all add: atomic_column_def)

lemma parseColumns_plain_eq:
  "parseColumns_plain table columns = insert_statement table columns"
proof (cases columns)
  case Nil
  then show ?thesis by (simp add: parseColumns_plain_def insert_statement_def)
next
  case (Cons c cs)
  then show ?thesis
    by (simp add: parseColumns_plain_def insert_statement_def fold_plain_column_Suc
        plain_column_first join_with_Cons)
qed

lemma parseColumns_atomic_eq:
  "parseColumns_atomic table on_dup columns =
     insert_statement table columns @ (if on_dup then update_clause columns else [])"
proof (cases columns)
  case Nil
  then show ?thesis
    by (simp add: parseColumns_atomic_def insert_statement_def update_clause_def)
next
  case (Cons c cs)
  then show ?thesis
    by (simp add: parseColumns_atomic_def insert_statement_def update_clause_def
        fold_atomic_column_Suc atomic_column_first join_with_Cons comp_def)
qed

lemma fold_store_args:
  "length acc = n + length s \<Longrightarrow>
   fold (\<lambda>(k, v) i. i[k := null_or_text v]) (enumerate n s) acc
     = take n acc @ map null_or_text s"
proof (induction s arbitrary: n acc)
  case Nil
  then show ?case by simp
next
  case (Cons x xs)
  have len: "length (acc[n := null_or_text x]) = Suc n + length xs"
    using Cons.prems by simp
  have "take (Suc n) (acc[n := null_or_text x]) = take n acc @ [null_or_text x]"
    using Cons.prems by (simp add: take_Suc_conv_app_nth)
  then show ?case
    using Cons.IH [OF len] by simp
qed

section \<open>Every run keeps the invariants\<close>

subsection \<open>Counting workers\<close>

lemma tally_Nil: "tally P [] = 0"
  by (simp add: tally_def)

lemma tally_snoc: "tally P (ws @ [w]) = tally P ws + (if P w then 1 else 0)"
  by (simp add: tally_def)

lemma tally_Cons: "tally P (w # ws) = (if P w then 1 else 0) + tally P ws"
  by (simp add: tally_def)

lemma tally_update:
  "i < length ws \<Longrightarrow>
   tally P (ws[i := w]) = tally P ws - (if P (ws ! i) then 1 else 0) + (if P w then 1 else 0)"
proof (induction ws arbitrary: i)
  case Nil
  then show ?case by simp
next
  case (Cons x xs)
  show ?case
  proof (cases i)
    case 0
    then show ?thesis by (simp add: tally_Cons)
  next
    case (Suc j)
    then have "j < length xs" using Cons.prems by simp
    from Cons.IH [OF this] show ?thesis
      using Suc by (simp add: tally_Cons)
  qed
qed

lemma tally_nonneg: "0 \<le> tally P ws"
  by (simp add: tally_def)

lemma tally_zero_nth: "tally P ws = 0 \<Longrightarrow> i < length ws \<Longrightarrow> \<not> P (ws ! i)"
  by (auto simp: tally_def filter_empty_conv)

lemma tally_mono: "(\<And>w. P w \<Longrightarrow> Q w) \<Longrightarrow> tally P ws \<le> tally Q ws"
  by (induction ws) (auto simp: tally_def)

subsection \<open>Each step keeps each invariant\<close>

lemma main_step_tokens:
  "main_step v cfg s = Some s' \<Longrightarrow> tokens_inv cfg s \<Longrightarrow> tokens_inv cfg s'"
  unfolding main_step_def tokens_inv_def in_flight_def main_holds_def collector_holds_def
  by (auto split: main_pc.splits list.splits read_result.splits if_splits variant.splits
      simp: tally_snoc new_worker_def unsent_def)

lemma collector_step_tokens:
  "collector_step v cfg s = Some s' \<Longrightarrow> tokens_inv cfg s \<Longrightarrow> tokens_inv cfg s'"
  unfolding collector_step_def tokens_inv_def in_flight_def main_holds_def collector_holds_def
  by (auto split: collector_pc.splits list.splits if_splits variant.splits)

lemma worker_step_tokens:
  "worker_step v i r s = Some s' \<Longrightarrow> tokens_inv cfg s \<Longrightarrow> tokens_inv cfg s'"
  unfolding worker_step_def tokens_inv_def in_flight_def main_holds_def collector_holds_def
    set_worker_def Let_def
  by (auto split: worker_pc.splits option.splits if_splits variant.splits
      simp: tally_update unsent_def)

lemma main_step_counts:
  "main_step v cfg s = Some s' \<Longrightarrow> counts_inv s \<Longrightarrow> counts_inv s'"
  unfolding main_step_def counts_inv_def collector_holds_def dispatched_def
  by (auto split: main_pc.splits list.splits read_result.splits if_splits variant.splits
      simp: tally_snoc new_worker_def unsent_def alive_def)

lemma collector_step_counts:
  "collector_step v cfg s = Some s' \<Longrightarrow> counts_inv s \<Longrightarrow> counts_inv s'"
  unfolding collector_step_def counts_inv_def collector_holds_def dispatched_def negatives_def
  by (auto split: collector_pc.splits list.splits if_splits variant.splits)

lemma worker_step_counts:
  "worker_step v i r s = Some s' \<Longrightarrow> counts_inv s \<Longrightarrow> counts_inv s'"
  unfolding worker_step_def counts_inv_def collector_holds_def dispatched_def
    set_worker_def Let_def
  by (auto split: worker_pc.splits option.splits if_splits variant.splits
      simp: tally_update unsent_def alive_def)

lemma main_step_variant:
  "main_step v cfg s = Some s' \<Longrightarrow> variant_inv v s \<Longrightarrow> variant_inv v s'"
  unfolding main_step_def variant_inv_def
  by (auto split: main_pc.splits list.splits read_result.splits if_splits variant.splits
      simp: tally_snoc new_worker_def busy_def)

lemma collector_step_variant:
  "collector_step v cfg s = Some s' \<Longrightarrow> variant_inv v s \<Longrightarrow> variant_inv v s'"
  unfolding collector_step_def variant_inv_def
  by (auto split: collector_pc.splits list.splits if_splits variant.splits)

lemma worker_step_variant:
  "worker_step v i r s = Some s' \<Longrightarrow> variant_inv v s \<Longrightarrow> variant_inv v s'"
  unfolding worker_step_def variant_inv_def set_worker_def Let_def
  by (auto split: worker_pc.splits option.splits if_splits variant.splits
      simp: tally_update busy_def)

lemma malformed_Cons: "malformed (r # rest) = (is_error r \<or> malformed rest)"
  by (simp add: malformed_def)

lemma malformed_Nil: "malformed [] = False"
  by (simp add: malformed_def)

lemma worker_step_alive:
  "worker_step v i r s = Some s' \<Longrightarrow> i < length (workers s) \<and> alive (workers s ! i)"
  unfolding worker_step_def Let_def alive_def
  by (auto split: worker_pc.splits if_splits)

lemma worker_step_frame:
  "worker_step v i r s = Some s' \<Longrightarrow>
     main_at s' = main_at s \<and> input s' = input s \<and> isFirstRow s' = isFirstRow s
     \<and> length (workers s') = length (workers s) \<and> collector_at s' = collector_at s
     \<and> available s' = available s \<and> acquired s' = acquired s \<and> released s' = released s
     \<and> received s' = received s \<and> insertions s' = insertions s \<and> fails s' = fails s
     \<and> (status s' = status s \<or> (\<exists>e. status s' = Fatal e))"
  unfolding worker_step_def set_worker_def Let_def
  by (auto split: worker_pc.splits option.splits if_splits variant.splits)

lemma main_step_input:
  assumes "main_step v cfg s = Some s'" "status s = Running" "counts_inv s" "input_inv inp s"
  shows "input_inv inp s'"
proof (cases "main_at s")
  case M_read
  then show ?thesis
    using assms
    unfolding main_step_def input_inv_def main_pending_def dispatched_def data_records_def
    by (auto split: list.splits read_result.splits if_splits
        simp: malformed_Cons malformed_Nil is_error_def)
next
  case (M_acquire rec)
  then show ?thesis
    using assms
    unfolding main_step_def input_inv_def main_pending_def dispatched_def data_records_def
    by (auto split: if_splits variant.splits)
next
  case (M_conn_load rec)
  then show ?thesis
    using assms
    unfolding main_step_def input_inv_def main_pending_def dispatched_def data_records_def
    by auto
next
  case (M_conn_store rec c)
  then show ?thesis
    using assms
    unfolding main_step_def input_inv_def main_pending_def dispatched_def data_records_def
    by auto
next
  case (M_spawn rec)
  then show ?thesis
    using assms
    unfolding main_step_def input_inv_def main_pending_def dispatched_def data_records_def
    by auto
next
  case M_wait
  then show ?thesis
    using assms
    unfolding main_step_def input_inv_def main_pending_def dispatched_def data_records_def
      counts_inv_def
    by (auto split: if_splits)
next
  case M_drain
  then show ?thesis
    using assms
    unfolding main_step_def input_inv_def main_pending_def dispatched_def data_records_def
    by (auto split: if_splits)
next
  case M_report
  then show ?thesis
    using assms
    unfolding main_step_def input_inv_def main_pending_def dispatched_def data_records_def
    by (auto simp: malformed_Nil)
qed

lemma collector_step_frame:
  "collector_step v cfg s = Some s' \<Longrightarrow>
     main_at s' = main_at s \<and> input s' = input s \<and> isFirstRow s' = isFirstRow s
     \<and> workers s' = workers s \<and> status s' = status s \<and> wg s' = wg s
     \<and> acquired s' = acquired s \<and> logged s' = logged s \<and> id_var s' = id_var s"
  unfolding collector_step_def
  by (auto split: collector_pc.splits list.splits if_splits)

lemma collector_step_input:
  assumes "collector_step v cfg s = Some s'" "status s = Running" "input_inv inp s"
  shows "input_inv inp s'"
proof -
  note fr = collector_step_frame [OF assms(1)]
  have mp: "main_pending s' = main_pending s"
    using fr by (simp add: main_pending_def)
  have d: "dispatched s' = dispatched s"
    using fr by (simp add: dispatched_def)
  have cb: "callback s = [] \<Longrightarrow> callback s' = []"
    using assms(1) unfolding collector_step_def
    by (auto split: collector_pc.splits list.splits if_splits)
  show ?thesis
    using assms(2,3) fr mp d cb
    unfolding input_inv_def
    by (auto split: main_pc.splits)
qed

lemma worker_step_input:
  assumes "worker_step v i r s = Some s'" "status s = Running" "input_inv inp s"
  shows "input_inv inp s'"
proof -
  have al: "i < length (workers s)" "alive (workers s ! i)"
    using worker_step_alive [OF assms(1)] by simp_all
  then have nz: "tally alive (workers s) \<noteq> 0"
    using tally_zero_nth [of alive "workers s" i] by blast
  note fr = worker_step_frame [OF assms(1)]
  have mp: "main_pending s' = main_pending s"
    using fr by (simp add: main_pending_def)
  have d: "dispatched s' = dispatched s"
    using fr by (simp add: dispatched_def)
  have m: "case main_at s of M_drain \<Rightarrow> False | M_report \<Rightarrow> False | _ \<Rightarrow> True"
    using assms(3) nz unfolding input_inv_def by (auto split: main_pc.splits)
  from fr have "status s' = Running \<or> (\<exists>e. status s' = Fatal e)"
    using assms(2) by auto
  then show ?thesis
    using assms(2,3) m fr mp d
    unfolding input_inv_def
    by (auto split: main_pc.splits)
qed

subsection \<open>Runs\<close>

lemma step_pipeline_inv:
  assumes "step v cfg a s = Some s'" "pipeline_inv v cfg inp s"
  shows "pipeline_inv v cfg inp s'"
proof -
  have run: "status s = Running"
    using assms(1) by (auto simp: step_def split: if_splits)
  show ?thesis
  proof (cases a)
    case Main
    then have st: "main_step v cfg s = Some s'"
      using assms(1) run by (simp add: step_def)
    show ?thesis
      using assms(2) run main_step_tokens [OF st] main_step_counts [OF st]
        main_step_input [OF st] main_step_variant [OF st]
      by (simp add: pipeline_inv_def)
  next
    case Collector
    then have st: "collector_step v cfg s = Some s'"
      using assms(1) run by (simp add: step_def)
    show ?thesis
      using assms(2) run collector_step_tokens [OF st] collector_step_counts [OF st]
        collector_step_input [OF st] collector_step_variant [OF st]
      by (simp add: pipeline_inv_def)
  next
    case (Worker i r)
    then have st: "worker_step v i r s = Some s'"
      using assms(1) run by (simp add: step_def)
    show ?thesis
      using assms(2) run worker_step_tokens [OF st] worker_step_counts [OF st]
        worker_step_input [OF st] worker_step_variant [OF st]
      by (simp add: pipeline_inv_def)
  qed
qed

lemma initial_pipeline_inv:
  "0 \<le> MAX_SQL_CONNECTIONS cfg \<Longrightarrow> pipeline_inv v cfg inp (initial v cfg inp)"
  by (cases v)
    (simp_all add: pipeline_inv_def tokens_inv_def counts_inv_def input_inv_def variant_inv_def
      initial_def in_flight_def main_holds_def main_pending_def collector_holds_def
      dispatched_def tally_Nil negatives_def)

lemma run_pipeline_inv:
  "run v cfg s sched = Some s' \<Longrightarrow> pipeline_inv v cfg inp s \<Longrightarrow> pipeline_inv v cfg inp s'"
proof (induction sched arbitrary: s)
  case Nil
  then show ?case by simp
next
  case (Cons a as)
  then obtain t where t: "step v cfg a s = Some t" "run v cfg t as = Some s'"
    by (auto split: option.splits)
  from Cons.IH [OF t(2) step_pipeline_inv [OF t(1) Cons.prems(2)]] show ?case .
qed

lemma run_stopped:
  "run v cfg s sched = Some s' \<Longrightarrow> status s \<noteq> Running \<Longrightarrow> s' = s \<and> sched = []"
  by (cases sched) (auto simp: step_def)

lemma start_cases:
  "(status (start v cfg env) \<noteq> Running
      \<and> (\<exists>st. start v cfg env = halted v cfg st (stdin env) \<and> st \<noteq> Running
            \<and> (\<forall>a b. st \<noteq> Reported a b)))
   \<or> (0 \<le> MAX_SQL_CONNECTIONS cfg \<and> start v cfg env = initial v cfg (stdin env))"
  by (auto simp: start_def halted_def split: option.splits)

lemma reachable_cases:
  assumes "run v cfg (start v cfg env) sched = Some s"
  shows "(\<exists>st. s = halted v cfg st (stdin env) \<and> st \<noteq> Running \<and> (\<forall>a b. st \<noteq> Reported a b))
         \<or> (0 \<le> MAX_SQL_CONNECTIONS cfg \<and> pipeline_inv v cfg (stdin env) s)"
proof -
  from start_cases [of v cfg env] show ?thesis
  proof
    assume h: "status (start v cfg env) \<noteq> Running
      \<and> (\<exists>st. start v cfg env = halted v cfg st (stdin env) \<and> st \<noteq> Running
            \<and> (\<forall>a b. st \<noteq> Reported a b))"
    then have "s = start v cfg env"
      using run_stopped [OF assms] by simp
    then show ?thesis using h by auto
  next
    assume h: "0 \<le> MAX_SQL_CONNECTIONS cfg \<and> start v cfg env = initial v cfg (stdin env)"
    then show ?thesis
      using run_pipeline_inv [of v cfg "initial v cfg (stdin env)" sched s "stdin env"]
        initial_pipeline_inv [of cfg v "stdin env"] assms
      by simp
  qed
qed

subsection \<open>Bounds and counts in every reachable state\<close>

lemma unsent_alive: "unsent w \<Longrightarrow> alive w"
  by (auto simp: unsent_def alive_def split: worker_pc.splits)

lemma busy_unsent: "busy w \<Longrightarrow> unsent w"
  by (auto simp: unsent_def busy_def split: worker_pc.splits)

lemma in_flight_bounds:
  assumes "pipeline_inv v cfg inp s"
  shows "0 \<le> in_flight s" "in_flight s \<le> MAX_SQL_CONNECTIONS cfg"
    "tally unsent (workers s) \<le> in_flight s"
    "int (length (callback s)) \<le> in_flight s"
proof -
  have t: "tokens_inv cfg s" using assms by (simp add: pipeline_inv_def)
  have h: "0 \<le> main_holds s" "0 \<le> collector_holds s"
    by (simp_all add: main_holds_def collector_holds_def
        split: main_pc.splits collector_pc.splits)
  have u: "0 \<le> tally unsent (workers s)" by (rule tally_nonneg)
  show "0 \<le> in_flight s" using t h u by (simp add: tokens_inv_def)
  show "in_flight s \<le> MAX_SQL_CONNECTIONS cfg" using t by (simp add: tokens_inv_def)
  show "tally unsent (workers s) \<le> in_flight s" using t h by (simp add: tokens_inv_def)
  show "int (length (callback s)) \<le> in_flight s" using t h u by (simp add: tokens_inv_def)
qed

lemma atomic_connections_bounds:
  assumes "pipeline_inv Atomic cfg inp s"
  shows "0 \<le> connections s" "connections s \<le> in_flight s"
proof -
  have c: "connections s = tally busy (workers s)"
    using assms by (simp add: pipeline_inv_def variant_inv_def)
  show "0 \<le> connections s" using c tally_nonneg by simp
  have "tally busy (workers s) \<le> tally unsent (workers s)"
    by (rule tally_mono) (rule busy_unsent)
  then show "connections s \<le> in_flight s"
    using c in_flight_bounds(3) [OF assms] by simp
qed

lemma reported_counts:
  assumes "pipeline_inv v cfg inp s" "status s = Reported a b"
  shows "dispatched s = data_records inp"
    "int (length (received s)) = data_records inp"
    "a = data_records inp + (if collector_at s = C_recv then 1 else 0)"
    "b = a - fails s"
proof -
  have i: "input_inv inp s" and c: "counts_inv s"
    using assms(1) by (simp_all add: pipeline_inv_def)
  from i assms(2) have m: "main_at s = M_report" "a = insertions s" "b = insertions s - fails s"
    by (simp_all add: input_inv_def)
  from i m(1) have e: "input s = []" "tally alive (workers s) = 0" "callback s = []"
    by (simp_all add: input_inv_def)
  have "tally unsent (workers s) \<le> tally alive (workers s)"
    by (rule tally_mono) (rule unsent_alive)
  then have u: "tally unsent (workers s) = 0"
    using e(2) tally_nonneg [of unsent "workers s"] by simp
  show d: "dispatched s = data_records inp"
    using i m(1) e(1)
    by (cases "isFirstRow s") (simp_all add: input_inv_def main_pending_def data_records_def)
  show r: "int (length (received s)) = data_records inp"
    using c u e(3) d by (simp add: counts_inv_def)
  show "a = data_records inp + (if collector_at s = C_recv then 1 else 0)"
    using c r m(2) by (simp add: counts_inv_def)
  show "b = a - fails s" using m by simp
qed

subsection \<open>Who returns a token, and what ends a run\<close>

lemma halted_fields:
  "status (halted v cfg st inp) = st" "acquired (halted v cfg st inp) = 0"
  "released (halted v cfg st inp) = 0" "received (halted v cfg st inp) = []"
  "workers (halted v cfg st inp) = []" "callback (halted v cfg st inp) = []"
  "connections (halted v cfg st inp) = 0" "collector_at (halted v cfg st inp) = C_inc"
  "main_at (halted v cfg st inp) = M_read" "input (halted v cfg st inp) = inp"
  by (simp_all add: halted_def initial_def)





lemma no_report_on_malformed:
  assumes "run v cfg (start v cfg env) sched = Some s" "malformed (stdin env)"
  shows "\<forall>a b. status s \<noteq> Reported a b"
proof -
  from reachable_cases [OF assms(1)] show ?thesis
  proof
    assume "\<exists>st. s = halted v cfg st (stdin env) \<and> st \<noteq> Running
              \<and> (\<forall>a b. st \<noteq> Reported a b)"
    then show ?thesis by (auto simp: halted_fields)
  next
    assume "0 \<le> MAX_SQL_CONNECTIONS cfg \<and> pipeline_inv v cfg (stdin env) s"
    then have "input_inv (stdin env) s" by (simp add: pipeline_inv_def)
    then show ?thesis
      using assms(2) by (auto simp: input_inv_def)
  qed
qed




lemma final_report_counts:
  assumes "run v cfg (start v cfg env) sched = Some s" "status s = Reported a b"
  shows "dispatched s = data_records (stdin env)"
    "a = data_records (stdin env) + (if collector_at s = C_recv then 1 else 0)"
    "b = a - fails s"
proof -
  from reachable_cases [OF assms(1)] assms(2)
  have inv: "pipeline_inv v cfg (stdin env) s"
    by (auto simp: halted_fields)
  show "dispatched s = data_records (stdin env)"
    "a = data_records (stdin env) + (if collector_at s = C_recv then 1 else 0)"
    "b = a - fails s"
    using reported_counts [OF inv assms(2)] by simp_all
qed

lemma in_flight_never_exceeds:
  assumes "run v cfg (start v cfg env) sched = Some s" "0 \<le> MAX_SQL_CONNECTIONS cfg"
  shows "0 \<le> in_flight s" "in_flight s \<le> MAX_SQL_CONNECTIONS cfg"
    "tally unsent (workers s) \<le> MAX_SQL_CONNECTIONS cfg"
    "int (available s) + in_flight s \<le> MAX_SQL_CONNECTIONS cfg"
proof -
  from reachable_cases [OF assms(1)]
  have "(\<exists>st. s = halted v cfg st (stdin env)) \<or> pipeline_inv v cfg (stdin env) s"
    by blast
  then have "0 \<le> in_flight s \<and> in_flight s \<le> MAX_SQL_CONNECTIONS cfg
      \<and> tally unsent (workers s) \<le> MAX_SQL_CONNECTIONS cfg
      \<and> int (available s) + in_flight s \<le> MAX_SQL_CONNECTIONS cfg"
  proof
    assume "\<exists>st. s = halted v cfg st (stdin env)"
    then show ?thesis
      using assms(2) by (auto simp: halted_def initial_def in_flight_def tally_Nil)
  next
    assume inv: "pipeline_inv v cfg (stdin env) s"
    then have "tokens_inv cfg s" by (simp add: pipeline_inv_def)
    then show ?thesis
      using in_flight_bounds [OF inv] by (simp add: tokens_inv_def)
  qed
  then show "0 \<le> in_flight s" "in_flight s \<le> MAX_SQL_CONNECTIONS cfg"
    "tally unsent (workers s) \<le> MAX_SQL_CONNECTIONS cfg"
    "int (available s) + in_flight s \<le> MAX_SQL_CONNECTIONS cfg"
    by simp_all
qed

lemma atomic_counter_never_exceeds:
  assumes "run Atomic cfg (start Atomic cfg env) sched = Some s" "0 \<le> MAX_SQL_CONNECTIONS cfg"
  shows "0 \<le> connections s" "connections s \<le> MAX_SQL_CONNECTIONS cfg"
proof -
  from reachable_cases [OF assms(1)]
  have "(\<exists>st. s = halted Atomic cfg st (stdin env)) \<or> pipeline_inv Atomic cfg (stdin env) s"
    by blast
  then have "0 \<le> connections s \<and> connections s \<le> MAX_SQL_CONNECTIONS cfg"
  proof
    assume "\<exists>st. s = halted Atomic cfg st (stdin env)"
    then show ?thesis
      using assms(2) by (auto simp: halted_fields)
  next
    assume inv: "pipeline_inv Atomic cfg (stdin env) s"
    show ?thesis
      using atomic_connections_bounds [OF inv] in_flight_bounds(2) [OF inv] by simp
  qed
  then show "0 \<le> connections s" "connections s \<le> MAX_SQL_CONNECTIONS cfg"
    by simp_all
qed

subsection \<open>Sequence numbers and the failure count\<close>

lemma numbered_from_Nil: "numbered_from n []"
  by (simp add: numbered_from_def)

lemma numbered_from_snoc:
  "numbered_from n (ws @ [w]) = (numbered_from n ws \<and> \<bar>w_id w\<bar> = n + int (length ws))"
  by (auto simp: numbered_from_def)

lemma numbered_from_update:
  assumes "numbered_from n ws" "i < length ws" "\<bar>w_id w\<bar> = \<bar>w_id (ws ! i)\<bar>"
  shows "numbered_from n (ws[i := w])"
proof -
  have "map (\<lambda>w. \<bar>w_id w\<bar>) (ws[i := w]) = (map (\<lambda>w. \<bar>w_id w\<bar>) ws)[i := \<bar>w_id (ws ! i)\<bar>]"
    using assms(3) by (simp add: map_update)
  also have "\<dots> = map (\<lambda>w. \<bar>w_id w\<bar>) ws"
    using assms(2) by (metis list_update_id map_update)
  finally show ?thesis
    using assms(1) by (simp add: numbered_from_def)
qed

lemma numbered_from_nth:
  assumes "numbered_from n ws" "k < length ws"
  shows "\<bar>w_id (ws ! k)\<bar> = n + int k"
proof -
  have "map (\<lambda>w. \<bar>w_id w\<bar>) ws ! k = map (\<lambda>k. n + int k) [0..<length ws] ! k"
    using assms(1) by (simp add: numbered_from_def)
  then show ?thesis
    using assms(2) by simp
qed

lemma negatives_Nil: "negatives [] = 0"
  by (simp add: negatives_def)

lemma negatives_snoc: "negatives (xs @ [x]) = negatives xs + (if x < 0 then 1 else 0)"
  by (simp add: negatives_def)

lemma negatives_Cons: "negatives (x # xs) = (if x < 0 then 1 else 0) + negatives xs"
  by (simp add: negatives_def)

lemma main_step_failures:
  assumes "main_step v cfg s = Some s'" "failures_inv v s"
  shows "failures_inv v s'"
proof (cases "main_at s")
  case (M_spawn rec)
  then show ?thesis
    using assms unfolding main_step_def failures_inv_def
    by (cases v)
      (auto simp: tally_snoc numbered_from_snoc new_worker_def ill_numbered_def
        well_numbered_def reported_failure_def unsent_def first_id_def)
next
  case M_read
  then show ?thesis
    using assms unfolding main_step_def failures_inv_def
    by (auto split: list.splits read_result.splits if_splits)
next
  case (M_acquire rec)
  then show ?thesis
    using assms unfolding main_step_def failures_inv_def
    by (auto split: if_splits)
next
  case (M_conn_load rec)
  then show ?thesis
    using assms unfolding main_step_def failures_inv_def by auto
next
  case (M_conn_store rec c)
  then show ?thesis
    using assms unfolding main_step_def failures_inv_def by auto
next
  case M_wait
  then show ?thesis
    using assms unfolding main_step_def failures_inv_def by (auto split: if_splits)
next
  case M_drain
  then show ?thesis
    using assms unfolding main_step_def failures_inv_def by (auto split: if_splits)
next
  case M_report
  then show ?thesis
    using assms unfolding main_step_def failures_inv_def by auto
qed

lemma collector_step_failures:
  assumes "collector_step v cfg s = Some s'" "failures_inv v s"
  shows "failures_inv v s'"
  using assms unfolding collector_step_def failures_inv_def
  by (auto split: collector_pc.splits list.splits if_splits
      simp: negatives_snoc negatives_Cons)

lemma worker_step_failures:
  assumes "worker_step v i r s = Some s'" "failures_inv v s"
  shows "failures_inv v s'"
proof -
  have i: "i < length (workers s)"
    using worker_step_alive [OF assms(1)] by simp
  have "tally (ill_numbered v) (workers s) = 0"
    using assms(2) by (simp add: failures_inv_def)
  from tally_zero_nth [OF this i] have good: "well_numbered v (workers s ! i)"
    by (simp add: ill_numbered_def)
  have nf: "numbered_from (first_id v + 1) (workers s)"
    using assms(2) by (simp add: failures_inv_def)
  show ?thesis
  proof (cases "w_pc (workers s ! i)")
    case W_prepare
    then show ?thesis
      using assms i good
      unfolding worker_step_def failures_inv_def set_worker_def Let_def
      by (cases v; cases r)
        (auto simp: tally_update numbered_from_update ill_numbered_def well_numbered_def
          reported_failure_def recognisable_failure_def unsent_def)
  next
    case W_add
    then show ?thesis
      using assms i good
      unfolding worker_step_def failures_inv_def set_worker_def Let_def
      by (cases v)
        (auto simp: tally_update numbered_from_update ill_numbered_def well_numbered_def
          reported_failure_def recognisable_failure_def unsent_def)
  next
    case W_exec
    then show ?thesis
      using assms i good
      unfolding worker_step_def failures_inv_def set_worker_def Let_def
      by (cases v; cases r)
        (auto simp: tally_update numbered_from_update ill_numbered_def well_numbered_def
          reported_failure_def recognisable_failure_def unsent_def)
  next
    case W_sub
    then show ?thesis
      using assms i good
      unfolding worker_step_def failures_inv_def set_worker_def Let_def
      by (cases v)
        (auto simp: tally_update numbered_from_update ill_numbered_def well_numbered_def
          reported_failure_def recognisable_failure_def unsent_def)
  next
    case (W_send x)
    then show ?thesis
      using assms i good
      unfolding worker_step_def failures_inv_def set_worker_def Let_def
      by (cases v)
        (auto simp: tally_update numbered_from_update ill_numbered_def well_numbered_def
          reported_failure_def recognisable_failure_def unsent_def negatives_snoc
          split: if_splits)
  next
    case W_defer
    then show ?thesis
      using assms i good
      unfolding worker_step_def failures_inv_def set_worker_def Let_def
      by (cases v)
        (auto simp: tally_update numbered_from_update ill_numbered_def well_numbered_def
          reported_failure_def recognisable_failure_def unsent_def)
  next
    case W_exited
    then show ?thesis
      using assms i unfolding worker_step_def Let_def by simp
  qed
qed

lemma initial_failures_inv: "failures_inv v (initial v cfg inp)"
  by (simp add: failures_inv_def initial_def numbered_from_Nil tally_Nil negatives_Nil)

lemma run_failures_inv:
  "run v cfg s sched = Some s' \<Longrightarrow> failures_inv v s \<Longrightarrow> failures_inv v s'"
proof (induction sched arbitrary: s)
  case Nil
  then show ?case by simp
next
  case (Cons a as)
  then obtain t where t: "step v cfg a s = Some t" "run v cfg t as = Some s'"
    by (auto split: option.splits)
  have "failures_inv v t"
  proof (cases a)
    case Main
    then show ?thesis
      using t(1) Cons.prems(2) main_step_failures [of v cfg s t]
      by (auto simp: step_def split: if_splits)
  next
    case Collector
    then show ?thesis
      using t(1) Cons.prems(2) collector_step_failures [of v cfg s t]
      by (auto simp: step_def split: if_splits)
  next
    case (Worker i r)
    then show ?thesis
      using t(1) Cons.prems(2) worker_step_failures [of v i r s t]
      by (auto simp: step_def split: if_splits)
  qed
  from Cons.IH [OF t(2) this] show ?case .
qed

lemma tally_zero_all: "tally P ws = 0 \<Longrightarrow> w \<in> set ws \<Longrightarrow> \<not> P w"
  by (auto simp: tally_def filter_empty_conv)

lemma tally_cong: "(\<And>w. w \<in> set ws \<Longrightarrow> P w = Q w) \<Longrightarrow> tally P ws = tally Q ws"
  unfolding tally_def by (simp cong: filter_cong)

lemma reported_when_all_sent:
  assumes "tally unsent ws = 0"
  shows "tally reported_failure ws = tally recognisable_failure ws"
  by (rule tally_cong) (simp add: reported_failure_def tally_zero_all [OF assms])

lemma plain_all_recognisable:
  assumes "tally (ill_numbered Plain) ws = 0"
  shows "tally recognisable_failure ws = tally failed ws"
proof (rule tally_cong)
  fix w assume "w \<in> set ws"
  from tally_zero_all [OF assms this] have "0 < w_id w"
    by (simp add: ill_numbered_def well_numbered_def)
  then show "recognisable_failure w = failed w"
    by (simp add: recognisable_failure_def failed_def)
qed

lemma atomic_all_but_first_recognisable:
  assumes "numbered_from 0 ws"
  shows "tally recognisable_failure ws
           = tally failed ws - (if ws \<noteq> [] \<and> failed (hd ws) then 1 else 0)"
proof (cases ws)
  case Nil
  then show ?thesis by (simp add: tally_Nil)
next
  case (Cons w rest)
  have w0: "w_id w = 0"
    using numbered_from_nth [OF assms, of 0] Cons by simp
  have "tally recognisable_failure rest = tally failed rest"
  proof (rule tally_cong)
    fix u assume "u \<in> set rest"
    then obtain k where k: "k < length rest" "rest ! k = u"
      by (auto simp: in_set_conv_nth)
    then have "\<bar>w_id (ws ! Suc k)\<bar> = 0 + int (Suc k)"
      using numbered_from_nth [OF assms, of "Suc k"] Cons by simp
    then have "w_id u \<noteq> 0"
      using k Cons by auto
    then show "recognisable_failure u = failed u"
      by (simp add: recognisable_failure_def failed_def)
  qed
  then show ?thesis
    using Cons w0 by (simp add: tally_Cons recognisable_failure_def failed_def)
qed

lemma fails_when_quiescent:
  assumes "run v cfg (start v cfg env) sched = Some s" "quiescent s"
  shows "fails s
           = tally failed (workers s)
             - (case v of Plain \<Rightarrow> 0
                | Atomic \<Rightarrow> if workers s \<noteq> [] \<and> failed (hd (workers s)) then 1 else 0)"
proof -
  from reachable_cases [OF assms(1)] assms(2)
  have inv: "pipeline_inv v cfg (stdin env) s" and st: "start v cfg env = initial v cfg (stdin env)"
    using start_cases [of v cfg env] run_stopped [OF assms(1)]
    by (auto simp: halted_fields quiescent_def)
  have f: "failures_inv v s"
    using run_failures_inv [of v cfg "initial v cfg (stdin env)" sched s] assms(1) st
      initial_failures_inv [of v cfg "stdin env"]
    by simp
  have c: "counts_inv s" using inv by (simp add: pipeline_inv_def)
  have "tally unsent (workers s) \<le> tally alive (workers s)"
    by (rule tally_mono) (rule unsent_alive)
  then have u: "tally unsent (workers s) = 0"
    using assms(2) tally_nonneg [of unsent "workers s"] by (simp add: quiescent_def)
  have "fails s = negatives (received s)"
    using c assms(2) by (simp add: counts_inv_def quiescent_def)
  also have "\<dots> = tally reported_failure (workers s)"
    using f assms(2) by (simp add: failures_inv_def quiescent_def negatives_Nil)
  also have "\<dots> = tally recognisable_failure (workers s)"
    by (rule reported_when_all_sent [OF u])
  finally have r: "fails s = tally recognisable_failure (workers s)" .
  show ?thesis
  proof (cases v)
    case Plain
    then show ?thesis
      using r f plain_all_recognisable [of "workers s"] by (simp add: failures_inv_def)
  next
    case Atomic
    then show ?thesis
      using r f atomic_all_but_first_recognisable [of "workers s"]
      by (simp add: failures_inv_def first_id_def)
  qed
qed

subsection \<open>Every run comes to an end\<close>

text \<open>
  Every step other than a turn of the busy wait on \<open>len(callback)\<close> uses up work, and as
  long as the process runs with at least one connection some goroutine has such a step: no
  run goes on for ever and none gets stuck.
\<close>

lemma sum_list_weight_update:
  "i < length ws \<Longrightarrow>
   sum_list (map worker_weight (ws[i := w])) + worker_weight (ws ! i)
     = sum_list (map worker_weight ws) + worker_weight w"
proof (induction ws arbitrary: i)
  case Nil
  then show ?case by simp
next
  case (Cons x xs)
  then show ?case by (cases i) auto
qed

lemma main_step_work:
  assumes "main_step v cfg s = Some s'" "status s = Running"
  shows "(main_at s = M_drain \<and> callback s \<noteq> [] \<and> s' = s) \<or> work_left s' < work_left s"
proof (cases "main_at s")
  case M_read
  then show ?thesis
    using assms unfolding main_step_def work_left_def main_weight_def
    by (auto split: list.splits read_result.splits if_splits)
next
  case (M_acquire rec)
  then show ?thesis
    using assms unfolding main_step_def work_left_def main_weight_def
    by (auto split: if_splits variant.splits)
next
  case (M_conn_load rec)
  then show ?thesis
    using assms unfolding main_step_def work_left_def main_weight_def by auto
next
  case (M_conn_store rec c)
  then show ?thesis
    using assms unfolding main_step_def work_left_def main_weight_def by auto
next
  case (M_spawn rec)
  then show ?thesis
    using assms unfolding main_step_def work_left_def main_weight_def
    by (cases v) (auto simp: new_worker_def worker_weight_def)
next
  case M_wait
  then show ?thesis
    using assms unfolding main_step_def work_left_def main_weight_def
    by (auto split: if_splits)
next
  case M_drain
  then show ?thesis
    using assms unfolding main_step_def work_left_def main_weight_def
    by (auto split: if_splits)
next
  case M_report
  then show ?thesis
    using assms unfolding main_step_def work_left_def main_weight_def by auto
qed

lemma collector_step_work:
  assumes "collector_step v cfg s = Some s'"
  shows "work_left s' < work_left s"
  using assms unfolding collector_step_def work_left_def collector_weight_def
  by (auto split: collector_pc.splits list.splits if_splits variant.splits)

lemma worker_step_work:
  assumes "worker_step v i r s = Some s'" "status s = Running"
  shows "work_left s' < work_left s"
proof -
  have i: "i < length (workers s)"
    using worker_step_alive [OF assms(1)] by simp
  note u = sum_list_weight_update [OF i]
  show ?thesis
  proof (cases "w_pc (workers s ! i)")
    case W_add
    then show ?thesis
      using assms i u [of "(workers s ! i)\<lparr>w_pc := W_prepare\<rparr>"]
      unfolding worker_step_def work_left_def set_worker_def Let_def
      by (auto simp: worker_weight_def)
  next
    case W_prepare
    then show ?thesis
      using assms i u [of "(workers s ! i)\<lparr>w_pc := W_exec\<rparr>"]
      unfolding worker_step_def work_left_def set_worker_def Let_def
      by (cases r) (auto simp: worker_weight_def)
  next
    case W_exec
    then show ?thesis
      using assms i
        u [of "(workers s ! i)\<lparr>w_pc := W_send (w_id (workers s ! i))\<rparr>"]
        u [of "(workers s ! i)\<lparr>w_pc := W_sub\<rparr>"]
        u [of "(workers s ! i)\<lparr>w_err := r, w_pc := W_send (- w_id (workers s ! i))\<rparr>"]
        u [of "(workers s ! i)\<lparr>w_id := - w_id (workers s ! i), w_err := r, w_pc := W_sub\<rparr>"]
      unfolding worker_step_def work_left_def set_worker_def Let_def
      by (cases v; cases r) (auto simp: worker_weight_def)
  next
    case W_sub
    then show ?thesis
      using assms i u [of "(workers s ! i)\<lparr>w_pc := W_send (w_id (workers s ! i))\<rparr>"]
      unfolding worker_step_def work_left_def set_worker_def Let_def
      by (auto simp: worker_weight_def)
  next
    case (W_send x)
    then show ?thesis
      using assms i u [of "(workers s ! i)\<lparr>w_pc := W_defer\<rparr>"]
      unfolding worker_step_def work_left_def set_worker_def Let_def
      by (auto simp: worker_weight_def split: if_splits)
  next
    case W_defer
    then show ?thesis
      using assms i u [of "(workers s ! i)\<lparr>w_pc := W_exited\<rparr>"]
      unfolding worker_step_def work_left_def set_worker_def Let_def
      by (auto simp: worker_weight_def)
  next
    case W_exited
    then show ?thesis
      using assms unfolding worker_step_def Let_def by (auto split: if_splits)
  qed
qed

lemma step_work:
  assumes "step v cfg a s = Some s'"
  shows "s' = s \<or> work_left s' < work_left s"
proof -
  have running: "status s = Running"
    using assms by (auto simp: step_def split: if_splits)
  show ?thesis
  proof (cases a)
    case Main
    then show ?thesis
      using assms running main_step_work [of v cfg s s'] by (auto simp: step_def)
  next
    case Collector
    then show ?thesis
      using assms running collector_step_work [of v cfg s s'] by (simp add: step_def)
  next
    case (Worker i r)
    then show ?thesis
      using assms running worker_step_work [of v i r s s'] by (simp add: step_def)
  qed
qed


lemma tally_pos_nth: "tally P ws \<noteq> 0 \<Longrightarrow> \<exists>i<length ws. P (ws ! i)"
proof -
  assume "tally P ws \<noteq> 0"
  then obtain w where "w \<in> set ws" "P w"
    by (auto simp: tally_def filter_empty_conv)
  then show ?thesis
    by (auto simp: in_set_conv_nth)
qed

lemma worker_step_enabled:
  assumes "i < length (workers s)" "alive (workers s ! i)" "length (callback s) < 1024"
  shows "\<exists>s'. worker_step v i None s = Some s'"
  using assms unfolding worker_step_def Let_def alive_def
  by (auto split: worker_pc.splits variant.splits)

lemma main_step_enabled:
  assumes "case main_at s of M_acquire rec \<Rightarrow> available s \<noteq> 0 | M_wait \<Rightarrow> wg s = 0 | _ \<Rightarrow> True"
  shows "\<exists>s'. main_step v cfg s = Some s'"
  using assms unfolding main_step_def
  by (auto split: main_pc.splits list.splits read_result.splits)

lemma collector_step_enabled:
  assumes "tokens_inv cfg s" "collector_at s = C_recv \<longrightarrow> callback s \<noteq> []"
  shows "\<exists>s'. collector_step v cfg s = Some s'"
proof (cases "collector_at s = C_release")
  case True
  have "0 \<le> main_holds s"
    by (simp add: main_holds_def split: main_pc.splits)
  moreover have "0 \<le> tally unsent (workers s)" by (rule tally_nonneg)
  ultimately have "int (available s) < MAX_SQL_CONNECTIONS cfg"
    using assms(1) True by (simp add: tokens_inv_def collector_holds_def)
  then show ?thesis
    using True by (simp add: collector_step_def)
next
  case False
  then show ?thesis
    using assms(2) unfolding collector_step_def
    by (auto split: collector_pc.splits list.splits)
qed

lemma progress:
  assumes inv: "pipeline_inv v cfg inp s" and running: "status s = Running"
    and n: "1 \<le> MAX_SQL_CONNECTIONS cfg"
  shows "\<exists>a s'. step v cfg a s = Some s' \<and> work_left s' < work_left s"
proof (cases "collector_at s = C_recv \<and> callback s = []")
  case False
  have "tokens_inv cfg s" using inv by (simp add: pipeline_inv_def)
  from collector_step_enabled [OF this, of v] False
  obtain s' where s': "collector_step v cfg s = Some s'" by auto
  then have "step v cfg Collector s = Some s'"
    using running by (simp add: step_def)
  then show ?thesis
    using collector_step_work [OF s'] by blast
next
  case True
  have t: "tokens_inv cfg s" and c: "counts_inv s"
    using inv by (simp_all add: pipeline_inv_def)
  have empty: "length (callback s) < 1024" using True by simp
  have by_worker: "\<exists>a s'. step v cfg a s = Some s' \<and> work_left s' < work_left s"
    if "tally alive (workers s) \<noteq> 0"
  proof -
    from tally_pos_nth [OF that] obtain i where i: "i < length (workers s)" "alive (workers s ! i)"
      by blast
    from worker_step_enabled [OF i empty, of v]
    obtain s' where s': "worker_step v i None s = Some s'" by blast
    then have "step v cfg (Worker i None) s = Some s'"
      using running by (simp add: step_def)
    then show ?thesis
      using worker_step_work [OF s' running] by blast
  qed
  have by_main: "\<exists>a s'. step v cfg a s = Some s' \<and> work_left s' < work_left s"
    if "case main_at s of M_acquire rec \<Rightarrow> available s \<noteq> 0 | M_wait \<Rightarrow> wg s = 0 | _ \<Rightarrow> True"
  proof -
    from main_step_enabled [OF that, of v cfg]
    obtain s' where s': "main_step v cfg s = Some s'" by blast
    then have "step v cfg Main s = Some s'"
      using running by (simp add: step_def)
    then show ?thesis
      using main_step_work [OF s' running] True by blast
  qed
  show ?thesis
  proof (cases "case main_at s of M_acquire rec \<Rightarrow> available s \<noteq> 0 | M_wait \<Rightarrow> wg s = 0
      | _ \<Rightarrow> True")
    case True
    then show ?thesis by (rule by_main)
  next
    case False
    then consider (acq) rec where "main_at s = M_acquire rec" "available s = 0"
      | (wait) "main_at s = M_wait" "wg s \<noteq> 0"
      by (auto split: main_pc.splits)
    then show ?thesis
    proof cases
      case acq
      have "tally unsent (workers s) = MAX_SQL_CONNECTIONS cfg"
        using t acq True by (simp add: tokens_inv_def main_holds_def collector_holds_def)
      moreover have "tally unsent (workers s) \<le> tally alive (workers s)"
        by (rule tally_mono) (rule unsent_alive)
      ultimately have "tally alive (workers s) \<noteq> 0"
        using n by simp
      then show ?thesis by (rule by_worker)
    next
      case wait
      then have "tally alive (workers s) \<noteq> 0"
        using c by (simp add: counts_inv_def)
      then show ?thesis by (rule by_worker)
    qed
  qed
qed

lemma can_finish:
  assumes "pipeline_inv v cfg inp s" "1 \<le> MAX_SQL_CONNECTIONS cfg"
  shows "\<exists>sched s'. run v cfg s sched = Some s' \<and> status s' \<noteq> Running"
  using assms(1)
proof (induction "work_left s" arbitrary: s rule: less_induct)
  case less
  show ?case
  proof (cases "status s = Running")
    case False
    then have "run v cfg s [] = Some s \<and> status s \<noteq> Running" by simp
    then show ?thesis by blast
  next
    case True
    from progress [OF less.prems True assms(2)]
    obtain a t where t: "step v cfg a s = Some t" "work_left t < work_left s" by blast
    have "pipeline_inv v cfg inp t"
      using step_pipeline_inv [OF t(1) less.prems] .
    from less.hyps [OF t(2) this]
    obtain sched s' where "run v cfg t sched = Some s'" "status s' \<noteq> Running" by blast
    then have "run v cfg s (a # sched) = Some s' \<and> status s' \<noteq> Running"
      using t(1) by simp
    then show ?thesis by blast
  qed
qed


lemma run_append:
  "run v cfg s (xs @ ys) =
     (case run v cfg s xs of None \<Rightarrow> None | Some t \<Rightarrow> run v cfg t ys)"
  by (induction xs arbitrary: s) (auto split: option.splits)

lemma run_work_le: "run v cfg s sched = Some s' \<Longrightarrow> work_left s' \<le> work_left s"
proof (induction sched arbitrary: s)
  case Nil
  then show ?case by simp
next
  case (Cons a as)
  then obtain t where t: "step v cfg a s = Some t" "run v cfg t as = Some s'"
    by (auto split: option.splits)
  from step_work [OF t(1)] Cons.IH [OF t(2)] show ?case by auto
qed

lemma malformed_run_ends_in_failure:
  assumes "run v cfg (start v cfg env) sched = Some s" "malformed (stdin env)"
    "1 \<le> MAX_SQL_CONNECTIONS cfg"
  shows "\<exists>more t c. run v cfg s more = Some t \<and> exit_code (status t) = Some c \<and> c \<noteq> 0"
proof -
  have "\<exists>more t. run v cfg s more = Some t \<and> status t \<noteq> Running"
  proof (cases "status s = Running")
    case False
    then have "run v cfg s [] = Some s \<and> status s \<noteq> Running" by simp
    then show ?thesis by blast
  next
    case True
    with reachable_cases [OF assms(1)] have "pipeline_inv v cfg (stdin env) s"
      by (auto simp: halted_fields)
    from can_finish [OF this assms(3)] show ?thesis .
  qed
  then obtain more t where t: "run v cfg s more = Some t" "status t \<noteq> Running" by blast
  have "run v cfg (start v cfg env) (sched @ more) = Some t"
    using assms(1) t(1) by (simp add: run_append)
  from no_report_on_malformed [OF this assms(2)] t(2)
  have "\<exists>c. exit_code (status t) = Some c \<and> c \<noteq> 0"
    by (cases "status t") (simp_all add: exit_code_def)
  then show ?thesis
    using t(1) by blast
qed

subsection \<open>The collector's round, and returning every token\<close>







section \<open>The properties\<close>

text \<open>
  C1 on the code.  The collector adds one to \<open>insertions\<close> before it waits for an Outcome.
  On a stream that holds the header alone no Task is dispatched, and a run in which the
  collector has reached its receive reports one insertion; on a stream with one data record
  a run that is fully drained reports two, in both variants.
\<close>

theorem report_counts_one_more:
  "map_option status
     (run Plain (example_config 50) (start Plain (example_config 50) (example_env header_only))
        drained_header_only) = Some (Reported 1 1)
   \<and> map_option dispatched
     (run Plain (example_config 50) (start Plain (example_config 50) (example_env header_only))
        drained_header_only) = Some 0
   \<and> data_records header_only = 0
   \<and> map_option status
     (run Plain (example_config 50) (start Plain (example_config 50) (example_env one_row))
        (drained_one_row Plain None)) = Some (Reported 2 2)
   \<and> map_option dispatched
     (run Plain (example_config 50) (start Plain (example_config 50) (example_env one_row))
        (drained_one_row Plain None)) = Some 1
   \<and> map_option quiescent
     (run Plain (example_config 50) (start Plain (example_config 50) (example_env one_row))
        (drained_one_row Plain None)) = Some True
   \<and> data_records one_row = 1
   \<and> map_option status
     (run Atomic (example_config 100) (start Atomic (example_config 100) (example_env one_row))
        (drained_one_row Atomic None)) = Some (Reported 2 2)"
  by code_simp

text \<open>
  C2 on the code.  In \<open>src/tsvToMYSQLTiDB.go\<close> the counter \<open>connections\<close> is incremented by
  \<open>main\<close> and decremented by the collector with plain read-modify-write statements.  With
  two connections and three data records, the collector's decrement for the first Task can
  fall between the load and the store of \<open>main\<close>'s increment for the second and is then
  lost: when the third Task is admitted the counter stands at 3, while two Tasks are in
  flight.
\<close>

theorem plain_counter_exceeds_limit:
  "map_option connections
     (run Plain (example_config 2) (start Plain (example_config 2) (example_env three_rows))
        lost_decrement) = Some 3
   \<and> map_option in_flight
     (run Plain (example_config 2) (start Plain (example_config 2) (example_env three_rows))
        lost_decrement) = Some 2
   \<and> map_option status
     (run Plain (example_config 2) (start Plain (example_config 2) (example_env three_rows))
        lost_decrement) = Some Running
   \<and> MAX_SQL_CONNECTIONS (example_config 2) = 2"
  by code_simp

text \<open>
  C3 on the code.  \<open>src/unnamed/part_000\<close> numbers the first data record 0.  When its
  insertion fails the worker sends \<open>-0\<close>, the collector's test \<open>id < 0\<close> is false, and the
  fully drained run reports the failed insertion as valid.  The other variant numbers the
  same record 2, sends \<open>-2\<close> and counts the failure.
\<close>

theorem first_row_failure_not_counted:
  "map_option status
     (run Atomic (example_config 100) (start Atomic (example_config 100) (example_env one_row))
        (drained_one_row Atomic (Some ''Duplicate entry''))) = Some (Reported 2 2)
   \<and> map_option fails
     (run Atomic (example_config 100) (start Atomic (example_config 100) (example_env one_row))
        (drained_one_row Atomic (Some ''Duplicate entry''))) = Some 0
   \<and> map_option received
     (run Atomic (example_config 100) (start Atomic (example_config 100) (example_env one_row))
        (drained_one_row Atomic (Some ''Duplicate entry''))) = Some [0]
   \<and> map_option logged
     (run Atomic (example_config 100) (start Atomic (example_config 100) (example_env one_row))
        (drained_one_row Atomic (Some ''Duplicate entry'')))
       = Some [Insert_error 0 None ''Duplicate entry'']
   \<and> map_option quiescent
     (run Atomic (example_config 100) (start Atomic (example_config 100) (example_env one_row))
        (drained_one_row Atomic (Some ''Duplicate entry''))) = Some True
   \<and> map_option fails
     (run Plain (example_config 50) (start Plain (example_config 50) (example_env one_row))
        (drained_one_row Plain (Some ''Duplicate entry''))) = Some 1
   \<and> map_option received
     (run Plain (example_config 50) (start Plain (example_config 50) (example_env one_row))
        (drained_one_row Plain (Some ''Duplicate entry''))) = Some [- 2]"
  by code_simp




text \<open>
  C5.  In no run on a stream that holds a malformed record is the final report printed, and
  no such run ends with exit code 0; with at least one connection every such run can be
  continued to its end, which is an exit with a code other than 0.  Wherever the read loop
  stands, when the next read returns an error the next step of \<open>main\<close> ends the process
  with that error as its fatal diagnostic and exit code 1, whatever the workers in flight
  are doing, and nothing runs after it; when the next read returns the end of the stream,
  \<open>main\<close> leaves the loop for \<open>wg.Wait()\<close> and the process keeps running.
\<close>

theorem malformed_record_is_fatal:
  assumes "run v cfg (start v cfg env) sched = Some s"
  shows "(malformed (stdin env) \<longrightarrow>
            (\<forall>a b. status s \<noteq> Reported a b) \<and> exit_code (status s) \<noteq> Some 0)
         \<and> (malformed (stdin env) \<and> 1 \<le> MAX_SQL_CONNECTIONS cfg \<longrightarrow>
              (\<exists>more t c. run v cfg s more = Some t \<and> exit_code (status t) = Some c
                 \<and> c \<noteq> 0))
         \<and> (status s = Running \<and> main_at s = M_read \<and> input s = Read_error e # rest \<longrightarrow>
              step v cfg Main s = Some (s\<lparr>status := Fatal e\<rparr>)
              \<and> exit_code (Fatal e) = Some 1
              \<and> step v cfg a (s\<lparr>status := Fatal e\<rparr>) = None)
         \<and> (status s = Running \<and> main_at s = M_read \<and> input s = [] \<longrightarrow>
              step v cfg Main s = Some (s\<lparr>main_at := M_wait\<rparr>))"
proof -
  have one: "malformed (stdin env) \<longrightarrow>
            (\<forall>a b. status s \<noteq> Reported a b) \<and> exit_code (status s) \<noteq> Some 0"
  proof
    assume m: "malformed (stdin env)"
    from no_report_on_malformed [OF assms m]
    show "(\<forall>a b. status s \<noteq> Reported a b) \<and> exit_code (status s) \<noteq> Some 0"
      by (cases "status s") (simp_all add: exit_code_def)
  qed
  have two: "status s = Running \<and> main_at s = M_read \<and> input s = Read_error e # rest \<longrightarrow>
              step v cfg Main s = Some (s\<lparr>status := Fatal e\<rparr>)
              \<and> exit_code (Fatal e) = Some 1
              \<and> step v cfg a (s\<lparr>status := Fatal e\<rparr>) = None"
    by (simp add: step_def main_step_def exit_code_def)
  have three: "status s = Running \<and> main_at s = M_read \<and> input s = [] \<longrightarrow>
              step v cfg Main s = Some (s\<lparr>main_at := M_wait\<rparr>)"
    by (simp add: step_def main_step_def)
  have four: "malformed (stdin env) \<and> 1 \<le> MAX_SQL_CONNECTIONS cfg \<longrightarrow>
              (\<exists>more t c. run v cfg s more = Some t \<and> exit_code (status t) = Some c
                 \<and> c \<noteq> 0)"
    using malformed_run_ends_in_failure [OF assms] by blast
  show ?thesis
    using one two three four by blast
qed

theorem malformed_record_is_fatal_witness:
  "\<exists>s. run Plain (example_config 1) (start Plain (example_config 1) (example_env bad_third_row))
          until_third_row = Some s
       \<and> malformed (stdin (example_env bad_third_row))
       \<and> status s = Running \<and> main_at s = M_read
       \<and> input s = [Read_error ''record on line 4: wrong number of fields'']
       \<and> tally unsent (workers s) = 1
       \<and> step Plain (example_config 1) Main s =
           Some (s\<lparr>status := Fatal ''record on line 4: wrong number of fields''\<rparr>)
       \<and> step Plain (example_config 1) Collector
           (s\<lparr>status := Fatal ''record on line 4: wrong number of fields''\<rparr>) = None"
proof -
  define s where
    "s = the (run Plain (example_config 1)
               (start Plain (example_config 1) (example_env bad_third_row)) until_third_row)"
  have "run Plain (example_config 1) (start Plain (example_config 1) (example_env bad_third_row))
          until_third_row \<noteq> None"
    by code_simp
  then have r: "run Plain (example_config 1)
      (start Plain (example_config 1) (example_env bad_third_row)) until_third_row = Some s"
    by (simp add: s_def)
  have m: "malformed (stdin (example_env bad_third_row))"
    by code_simp
  have a: "status s = Running" "main_at s = M_read"
    "input s = [Read_error ''record on line 4: wrong number of fields'']"
    "tally unsent (workers s) = 1"
    unfolding s_def by code_simp+
  from malformed_record_is_fatal [OF r, of "''record on line 4: wrong number of fields''" "[]"
      Collector] a m r
  show ?thesis by auto
qed

text \<open>
  C6.  The argument list of a record is the record with every field whose text is exactly
  \<open>NULL\<close> replaced by the null value and every other field, the empty string included,
  passed through as it is; the number and the order of the fields are kept.
\<close>

theorem repalceNULLByDEFAULT_fields:
  "repalceNULLByDEFAULT s = map (\<lambda>v. if v = ''NULL'' then Null else Text v) s
   \<and> length (repalceNULLByDEFAULT s) = length s
   \<and> repalceNULLByDEFAULT [''NULL'', [], ''null'', ''NULL ''] =
       [Null, Text [], Text ''null'', Text ''NULL '']"
proof -
  have eq: "repalceNULLByDEFAULT s = map null_or_text s" for s
    unfolding repalceNULLByDEFAULT_def
    using fold_store_args [of "replicate (length s) Null" 0 s] by simp
  have "map null_or_text s = map (\<lambda>v. if v = ''NULL'' then Null else Text v) s"
    by (simp add: null_or_text_def)
  then show ?thesis
    by (simp add: eq null_or_text_def)
qed

text \<open>
  C7.  Without the update option the statement built from a header is the insertion
  statement that names every column of the header in order, followed by one positional
  placeholder for each column, in both variants of the program; for the header
  \<open>(id, name, score)\<close> it names these three columns and has three placeholders.
\<close>

theorem parseColumns_insert_statement:
  "parseColumns_plain table columns = insert_statement table columns
   \<and> parseColumns_atomic table False columns = insert_statement table columns
   \<and> insert_statement table columns =
       ''INSERT INTO '' @ table @ '' ('' @ join_with '', '' columns @ '') VALUES (''
         @ join_with '', '' (replicate (length columns) ''?'') @ '')''
   \<and> parseColumns_plain table [''id'', ''name'', ''score''] =
       ''INSERT INTO '' @ table @ '' (id, name, score) VALUES (?, ?, ?)''
   \<and> parseColumns_atomic table False [''id'', ''name'', ''score''] =
       ''INSERT INTO '' @ table @ '' (id, name, score) VALUES (?, ?, ?)''"
proof -
  have "insert_statement table [''id'', ''name'', ''score''] =
          ''INSERT INTO '' @ table @ '' (id, name, score) VALUES (?, ?, ?)''"
    by (simp add: insert_statement_def numeral_3_eq_3)
  then show ?thesis
    by (simp add: parseColumns_plain_eq parseColumns_atomic_eq) (simp add: insert_statement_def)
qed

text \<open>
  C8.  With the update option set, the statement is the insertion statement followed by an
  \<open>ON DUPLICATE KEY UPDATE\<close> clause that assigns to every column of the header, in order,
  the value of the row being inserted; with the option unset the statement is the insertion
  statement alone.
\<close>

theorem parseColumns_update_clause:
  "parseColumns_atomic table True columns = insert_statement table columns @ update_clause columns
   \<and> update_clause columns =
       ''ON DUPLICATE KEY UPDATE ''
         @ join_with '', '' (map (\<lambda>c. c @ ''=VALUES('' @ c @ '')'') columns)
   \<and> parseColumns_atomic table False columns = insert_statement table columns
   \<and> parseColumns_atomic table True [''id'', ''name'', ''score''] =
       ''INSERT INTO '' @ table @ '' (id, name, score) VALUES (?, ?, ?)''
         @ ''ON DUPLICATE KEY UPDATE id=VALUES(id), name=VALUES(name), score=VALUES(score)''"
proof -
  have "insert_statement table [''id'', ''name'', ''score''] =
          ''INSERT INTO '' @ table @ '' (id, name, score) VALUES (?, ?, ?)''"
    by (simp add: insert_statement_def numeral_3_eq_3)
  moreover have "update_clause [''id'', ''name'', ''score''] =
      ''ON DUPLICATE KEY UPDATE id=VALUES(id), name=VALUES(name), score=VALUES(score)''"
    by (simp add: update_clause_def)
  ultimately show ?thesis
    by (simp add: parseColumns_atomic_eq) (simp add: update_clause_def)
qed




text \<open>
  C10.  \<open>parseSysArgs\<close> takes the first rune of the value of the delimiter option and
  ignores the rest of the value.  When the value is empty the indexing panics: the program
  stops with that panic, before the store is opened, with the input untouched and no step
  left to take.
\<close>

theorem parseSysArgs_delimiter:
  "map_sum id DELIMITER (parseSysArgs v (fl\<lparr>flag_d := Some (r # rest)\<rparr>)) = Inr r
   \<and> parseSysArgs v (fl\<lparr>flag_d := Some (r # rest)\<rparr>) = parseSysArgs v (fl\<lparr>flag_d := Some [r]\<rparr>)
   \<and> parseSysArgs v (fl\<lparr>flag_d := Some []\<rparr>) = Inl Index_out_of_range
   \<and> status (program v (fl\<lparr>flag_d := Some []\<rparr>) env) = Panicked Index_out_of_range
   \<and> input (program v (fl\<lparr>flag_d := Some []\<rparr>) env) = stdin env
   \<and> step v cfg a (program v (fl\<lparr>flag_d := Some []\<rparr>) env) = None"
  by (cases v) (simp_all add: parseSysArgs_def flag_value_def program_def halted_def initial_def
      step_def)

end
